theory Spec2Isabelle
  imports Main "HOL-Library.Word"
begin

unbundle bit_operations_syntax

section \<open>Errors and Python primitives\<close>

text \<open>
  The exceptions of \<^verbatim>\<open>read_data.py\<close> that the modelled functions can raise. A
  \<^verbatim>\<open>ValueError\<close> carries its message, so that the two length checks of
  \<^verbatim>\<open>JuraEncoder\<close> stay apart from a failed \<^verbatim>\<open>int(s, 16)\<close>.
  \<^verbatim>\<open>UnicodeEncodeError\<close>, \<^verbatim>\<open>UnicodeDecodeError\<close> and \<^verbatim>\<open>binascii.Error\<close> are
  subclasses of \<^verbatim>\<open>ValueError\<close> in Python; they are kept as constructors of their own.
\<close>

datatype error =
    ValueError string
  | UnicodeEncodeError
  | UnicodeDecodeError
  | IndexError
  | AttributeError
  | BinasciiError

subsection \<open>Hexadecimal text\<close>

text \<open>
  Text (keys, payload tokens) is modelled by Isabelle strings, one \<open>char\<close> for each code
  point below 256. \<open>int16 s\<close> is Python's \<^verbatim>\<open>int(s, 16)\<close> on such a string. Python
  first turns the two whitespace characters above ASCII, \<^verbatim>\<open>U+0085\<close> and \<^verbatim>\<open>U+00A0\<close>,
  into spaces (no other character above ASCII is a digit or whitespace, and none is
  accepted); then surrounding ASCII whitespace is skipped, then an optional sign, an
  optional \<^verbatim>\<open>0x\<close> prefix (after which one underscore may stand), then hexadecimal digits
  with single underscores between them. \<open>None\<close> stands for the \<^verbatim>\<open>ValueError\<close> of
  \<^verbatim>\<open>int\<close>.
\<close>

definition ascii_space :: "char \<Rightarrow> char" where
  "ascii_space c = (if c = CHR 0x85 \<or> c = CHR 0xA0 then CHR 0x20 else c)"

definition is_space :: "char \<Rightarrow> bool" where
  "is_space c = (c \<in> set [CHR 0x09, CHR 0x0A, CHR 0x0B, CHR 0x0C, CHR 0x0D, CHR 0x20])"

definition strip :: "string \<Rightarrow> string" where
  "strip s = rev (dropWhile is_space (rev (dropWhile is_space s)))"

definition digit_val :: "char \<Rightarrow> nat option" where
  "digit_val c =
     (let n = of_char c :: nat in
      if 48 \<le> n \<and> n \<le> 57 then Some (n - 48)
      else if 97 \<le> n \<and> n \<le> 102 then Some (n - 87)
      else if 65 \<le> n \<and> n \<le> 70 then Some (n - 55)
      else None)"

fun hex_body :: "string \<Rightarrow> int \<Rightarrow> bool \<Rightarrow> int option" where
  "hex_body [] acc us = (if us then None else Some acc)"
| "hex_body (c # cs) acc us =
     (if c = CHR ''_'' then (if us then None else hex_body cs acc True)
      else (case digit_val c of
              None \<Rightarrow> None
            | Some v \<Rightarrow> hex_body cs (16 * acc + int v) False))"

definition int16 :: "string \<Rightarrow> int option" where
  "int16 s =
     (let t = strip (map ascii_space s);
          neg = (case t of c # r \<Rightarrow> c = CHR ''-'' | [] \<Rightarrow> False);
          u = (case t of c # r \<Rightarrow> if c = CHR ''-'' \<or> c = CHR ''+'' then r else t | [] \<Rightarrow> t);
          v = (case u of
                 c0 # cx # r \<Rightarrow>
                   if c0 = CHR ''0'' \<and> (cx = CHR ''x'' \<or> cx = CHR ''X'')
                   then (case r of cu # r' \<Rightarrow> if cu = CHR ''_'' then r' else r | [] \<Rightarrow> r)
                   else u
               | _ \<Rightarrow> u)
      in case v of
           [] \<Rightarrow> None
         | c # _ \<Rightarrow>
             if c = CHR ''_'' then None
             else map_option (\<lambda>n. if neg then - n else n) (hex_body v 0 False))"

text \<open>
  \<open>fmt02x d\<close> is \<^verbatim>\<open>'%02x' % d\<close>, which is also \<^verbatim>\<open>f"{d:02x}"\<close>: lower-case
  hexadecimal digits, padded with zeros to a width of two, a minus sign first for a
  negative number (the sign counts for the width).
\<close>

definition hexdigit :: "nat \<Rightarrow> char" where
  "hexdigit n = ''0123456789abcdef'' ! n"

fun hex_digits :: "nat \<Rightarrow> string" where
  "hex_digits n =
     (if n < 16 then [hexdigit n] else hex_digits (n div 16) @ [hexdigit (n mod 16)])"

declare hex_digits.simps [simp del]

definition fmt02x :: "int \<Rightarrow> string" where
  "fmt02x d =
     (if d < 0 then CHR ''-'' # hex_digits (nat (- d))
      else (let s = hex_digits (nat d) in if length s < 2 then CHR ''0'' # s else s))"

section \<open>BtEncoder: the nibble cipher\<close>

definition numbers1 :: "int list" where
  "numbers1 = [14, 4, 3, 2, 1, 13, 8, 11, 6, 15, 12, 7, 10, 5, 0, 9]"

definition numbers2 :: "int list" where
  "numbers2 = [10, 6, 13, 12, 14, 11, 1, 9, 15, 7, 0, 5, 3, 2, 4, 8]"

definition mod256 :: "int \<Rightarrow> int" where
  "mod256 i = i mod 256"

text \<open>
  \<^verbatim>\<open>shuffle\<close>. Python integers are unbounded and \<^verbatim>\<open>%\<close> rounds towards minus
  infinity, as \<open>mod\<close> on \<open>int\<close> does; \<^verbatim>\<open>>>\<close> is \<open>drop_bit\<close>. Every table index
  is a value \<open>mod 16\<close>, so it lies inside the sixteen entries of the table.
\<close>

definition shuffle :: "int \<Rightarrow> int \<Rightarrow> int \<Rightarrow> int \<Rightarrow> int" where
  "shuffle dataNibble nibbleCount keyLeftNibbel keyRightNibbel =
     (let i5 = mod256 (drop_bit 4 nibbleCount);
          tmp1 = numbers1 ! nat (mod256 (dataNibble + nibbleCount + keyLeftNibbel) mod 16);
          tmp2 = numbers2 ! nat (mod256 (tmp1 + keyRightNibbel + i5 - nibbleCount - keyLeftNibbel) mod 16);
          tmp3 = numbers1 ! nat (mod256 (tmp2 + keyLeftNibbel + nibbleCount - keyRightNibbel - i5) mod 16)
      in mod256 (tmp3 - nibbleCount - keyLeftNibbel) mod 16)"

text \<open>
  The loop of \<^verbatim>\<open>encDecBytes\<close>: one step per byte of \<^verbatim>\<open>data\<close>, with the running
  \<^verbatim>\<open>nibbelCount\<close> as an argument; the result list is built in order.
\<close>

fun encDecLoop :: "int list \<Rightarrow> int \<Rightarrow> int \<Rightarrow> int \<Rightarrow> int list" where
  "encDecLoop [] keyLeftNibbel keyRightNibbel nibbelCount = []"
| "encDecLoop (d # data) keyLeftNibbel keyRightNibbel nibbelCount =
     (let dataLeftNibbel = drop_bit 4 d;
          dataRightNibbel = d AND 15;
          resultLeftNibbel = shuffle dataLeftNibbel nibbelCount keyLeftNibbel keyRightNibbel;
          resultRightNibbel = shuffle dataRightNibbel (nibbelCount + 1) keyLeftNibbel keyRightNibbel
      in (push_bit 4 resultLeftNibbel OR resultRightNibbel)
         # encDecLoop data keyLeftNibbel keyRightNibbel (nibbelCount + 2))"

text \<open>
  \<^verbatim>\<open>encDecBytes(data, key)\<close>: the key arrives as hexadecimal text and is parsed first.
  The debug line at the end only formats integers and cannot fail.
\<close>

definition encDecBytes :: "int list \<Rightarrow> string \<Rightarrow> error + int list" where
  "encDecBytes data key =
     (case int16 key of
        None \<Rightarrow> Inl (ValueError ''invalid literal for int() with base 16'')
      | Some k \<Rightarrow> Inr (encDecLoop data (drop_bit 4 k) (k AND 15) 0))"

text \<open>
  \<^verbatim>\<open>data.split()\<close> cuts a string at runs of whitespace and returns no empty token.
  \<open>is_space_str\<close> is \<^verbatim>\<open>str.isspace\<close> on the code points below 256.
\<close>

definition is_space_str :: "char \<Rightarrow> bool" where
  "is_space_str c =
     (let n = of_char c :: nat in
      (9 \<le> n \<and> n \<le> 13) \<or> (28 \<le> n \<and> n \<le> 32) \<or> n = 133 \<or> n = 160)"

fun split_ws :: "string \<Rightarrow> string \<Rightarrow> string list" where
  "split_ws [] cur = (if cur = [] then [] else [cur])"
| "split_ws (c # cs) cur =
     (if is_space_str c then (if cur = [] then split_ws cs [] else cur # split_ws cs [])
      else split_ws cs (cur @ [c]))"

definition py_split :: "string \<Rightarrow> string list" where
  "py_split s = split_ws s []"

text \<open>\<^verbatim>\<open>[int(d, 16) for d in tokens]\<close>: the first token that does not parse raises.\<close>

fun ints16 :: "string list \<Rightarrow> error + int list" where
  "ints16 [] = Inr []"
| "ints16 (t # ts) =
     (case int16 t of
        None \<Rightarrow> Inl (ValueError ''invalid literal for int() with base 16'')
      | Some v \<Rightarrow> (case ints16 ts of Inl e \<Rightarrow> Inl e | Inr vs \<Rightarrow> Inr (v # vs)))"

text \<open>
  \<^verbatim>\<open>bruteforce_key\<close>: the loop over \<^verbatim>\<open>range(256)\<close> is a recursion over the list
  of candidates. \<^verbatim>\<open>result[0]\<close> raises \<^verbatim>\<open>IndexError\<close> on an empty result. The function
  returns the key as the two-digit text \<^verbatim>\<open>key_hex\<close>, or \<^verbatim>\<open>None\<close>.
\<close>

fun bruteforce_loop :: "int list \<Rightarrow> int list \<Rightarrow> error + string option" where
  "bruteforce_loop data [] = Inr None"
| "bruteforce_loop data (key # keys) =
     (let key_hex = fmt02x key in
      case encDecBytes data key_hex of
        Inl e \<Rightarrow> Inl e
      | Inr result \<Rightarrow>
          (case result of
             [] \<Rightarrow> Inl IndexError
           | r0 # _ \<Rightarrow>
               (case int16 key_hex of
                  None \<Rightarrow> Inl (ValueError ''invalid literal for int() with base 16'')
                | Some k \<Rightarrow>
                    if r0 = k then Inr (Some key_hex) else bruteforce_loop data keys)))"

definition bruteforce_key :: "string \<Rightarrow> error + string option" where
  "bruteforce_key data =
     (case ints16 (py_split data) of
        Inl e \<Rightarrow> Inl e
      | Inr ds \<Rightarrow> bruteforce_loop ds [0..255])"

section \<open>JuraEncoder: the character codec\<close>

text \<open>
  A \<^verbatim>\<open>bitarray\<close> is a list of bits, index 0 first; \<^verbatim>\<open>frombytes\<close> and
  \<^verbatim>\<open>tobytes\<close> put the most significant bit of a byte first (the default bit order of
  the library). The argument \<^verbatim>\<open>letter\<close> is a Python \<^verbatim>\<open>str\<close>: it is modelled as the
  list of its code points, which is what \<^verbatim>\<open>len\<close> counts. The flag \<^verbatim>\<open>hex\<close> (default
  0) is a truth value. With it, \<^verbatim>\<open>tojura\<close> returns text instead of the list of bit
  arrays, and \<^verbatim>\<open>fromjura\<close> expects text instead of a list: the two shapes of the
  result and of the argument are the constructors of \<open>jura_out\<close> and \<open>jura_in\<close>.
\<close>

type_synonym bitarray = "bool list"

datatype jura_out = WireBits "bitarray list" | WireHex string

datatype jura_in = BitList "bitarray list" | Text string

definition base_layout :: bitarray where
  "base_layout = [False, True, False, True, True, False, True, True]"

definition bits_of_byte :: "nat \<Rightarrow> bitarray" where
  "bits_of_byte b = map (bit b) [7, 6, 5, 4, 3, 2, 1, 0]"

definition frombytes :: "nat list \<Rightarrow> bitarray" where
  "frombytes bs = concat (map bits_of_byte bs)"

definition byte_of_bits :: "bitarray \<Rightarrow> nat" where
  "byte_of_bits bs = foldl (\<lambda>a b. 2 * a + (if b then 1 else 0)) 0 bs"

text \<open>
  \<^verbatim>\<open>str.encode()\<close>, UTF-8, of one code point: one byte below \<^verbatim>\<open>0x80\<close>, two below
  \<^verbatim>\<open>0x800\<close>, three below \<^verbatim>\<open>0x10000\<close> (a lone surrogate raises), four above. A
  Python \<^verbatim>\<open>str\<close> holds code points up to \<^verbatim>\<open>0x10FFFF\<close>.
\<close>

definition utf8_encode_cp :: "nat \<Rightarrow> error + nat list" where
  "utf8_encode_cp cp =
     (if cp < 0x80 then Inr [cp]
      else if cp < 0x800 then Inr [0xC0 + cp div 64, 0x80 + cp mod 64]
      else if cp < 0x10000 then
        (if 0xD800 \<le> cp \<and> cp \<le> 0xDFFF then Inl UnicodeEncodeError
         else Inr [0xE0 + cp div 4096, 0x80 + (cp div 64) mod 64, 0x80 + cp mod 64])
      else Inr [0xF0 + cp div 262144, 0x80 + (cp div 4096) mod 64,
                0x80 + (cp div 64) mod 64, 0x80 + cp mod 64])"

fun utf8_encode :: "nat list \<Rightarrow> error + nat list" where
  "utf8_encode [] = Inr []"
| "utf8_encode (cp # cps) =
     (case utf8_encode_cp cp of
        Inl e \<Rightarrow> Inl e
      | Inr bs \<Rightarrow> (case utf8_encode cps of Inl e \<Rightarrow> Inl e | Inr rest \<Rightarrow> Inr (bs @ rest)))"

text \<open>
  \<^verbatim>\<open>bytes.decode()\<close>, UTF-8, of a byte string of length one, the only length
  \<^verbatim>\<open>fromjura\<close> decodes: a single byte is a character exactly when it is below
  \<^verbatim>\<open>0x80\<close>.
\<close>

definition utf8_decode_byte :: "nat \<Rightarrow> error + nat list" where
  "utf8_decode_byte b = (if b < 0x80 then Inr [b] else Inl UnicodeDecodeError)"

text \<open>\<open>slice xs i j\<close> is \<^verbatim>\<open>xs[i:j]\<close> for \<open>0 \<le> i \<le> j\<close>; \<open>last8 c\<close> is \<^verbatim>\<open>c[-8:]\<close>.\<close>

definition slice :: "'a list \<Rightarrow> nat \<Rightarrow> nat \<Rightarrow> 'a list" where
  "slice xs i j = take (j - i) (drop i xs)"

definition last8 :: "'a list \<Rightarrow> 'a list" where
  "last8 c = drop (length c - 8) c"

text \<open>
  \<^verbatim>\<open>binascii.hexlify(b).decode()\<close>: two lower-case hexadecimal digits for each byte.
  \<^verbatim>\<open>bytes[i].tobytes()\<close> of a bit array of eight bits is its one byte.
\<close>

definition hexlify :: "nat list \<Rightarrow> string" where
  "hexlify bs = concat (map (\<lambda>b. [hexdigit (b div 16), hexdigit (b mod 16)]) bs)"

text \<open>
  The loop of \<^verbatim>\<open>tojura\<close>; its state is the list \<^verbatim>\<open>bytes\<close> and the text
  \<^verbatim>\<open>hex_code\<close>.
\<close>

fun tojura_loop ::
  "bitarray \<Rightarrow> bool \<Rightarrow> bitarray list \<Rightarrow> string \<Rightarrow> nat list \<Rightarrow> bitarray list \<times> string" where
  "tojura_loop c hex bytes hex_code [] = (bytes, hex_code)"
| "tojura_loop c hex bytes hex_code (i # is) =
     (let b = bytes ! i;
          b = b[2 := c ! (i * 2)];
          b = b[5 := c ! (i * 2 + 1)];
          bytes = bytes[i := b];
          hex_code = (if hex then hex_code @ hexlify [byte_of_bits (bytes ! i)] @ '' '' else hex_code)
      in tojura_loop c hex bytes hex_code is)"

text \<open>
  \<^verbatim>\<open>tojura\<close>. After the length check \<^verbatim>\<open>letter.encode()\<close> has at least one byte, so
  \<^verbatim>\<open>c[-8:]\<close> has eight bits and every \<^verbatim>\<open>c[i * 2]\<close>, \<^verbatim>\<open>c[i * 2 + 1]\<close> of the loop
  is in range. \<^verbatim>\<open>hex_code[:-1]\<close> drops the last space.
\<close>

definition tojura :: "nat list \<Rightarrow> bool \<Rightarrow> error + jura_out" where
  "tojura letter hex =
     (if length letter \<noteq> 1 then Inl (ValueError ''Needs a single byte'')
      else case utf8_encode letter of
        Inl e \<Rightarrow> Inl e
      | Inr enc \<Rightarrow>
          (let c = frombytes enc;
               c = last8 c;
               c = slice c 2 4 @ slice c 0 2 @ slice c 6 8 @ slice c 4 6;
               c = drop 4 c @ take 4 c;
               (bytes, hex_code) = tojura_loop c hex (replicate 4 base_layout) [] [0, 1, 2, 3]
           in if hex then Inr (WireHex (butlast hex_code)) else Inr (WireBits bytes)))"

text \<open>
  The loop of \<^verbatim>\<open>fromjura\<close>. \<^verbatim>\<open>bitarray(8)\<close> has eight bits of no fixed content; the loop writes
  all eight before any is read, so the model starts from zeros. Reading bit 2 or bit 5 of
  an element that is too short raises \<^verbatim>\<open>IndexError\<close>.
\<close>

fun fromjura_loop :: "bitarray list \<Rightarrow> bitarray \<Rightarrow> nat list \<Rightarrow> error + bitarray" where
  "fromjura_loop bytes out [] = Inr out"
| "fromjura_loop bytes out (i # is) =
     (if 2 < length (bytes ! i) then
        (let out = out[i * 2 := bytes ! i ! 2] in
         if 5 < length (bytes ! i) then
           fromjura_loop bytes (out[i * 2 + 1 := bytes ! i ! 5]) is
         else Inl IndexError)
      else Inl IndexError)"

text \<open>
  The part of \<^verbatim>\<open>fromjura\<close> from the length check on, which works on the list of bit
  arrays.
\<close>

definition fromjura_bits :: "bitarray list \<Rightarrow> error + nat list" where
  "fromjura_bits bytes =
     (if length bytes \<noteq> 4 then Inl (ValueError ''Needs an array of size 4'')
      else case fromjura_loop bytes (replicate 8 False) [0, 1, 2, 3] of
        Inl e \<Rightarrow> Inl e
      | Inr out \<Rightarrow>
          (let out = drop 4 out @ take 4 out;
               out = slice out 2 4 @ slice out 0 2 @ slice out 6 8 @ slice out 4 6
           in utf8_decode_byte (byte_of_bits out)))"

text \<open>
  \<^verbatim>\<open>binascii.unhexlify\<close> of a \<^verbatim>\<open>str\<close>: a character above ASCII is a
  \<^verbatim>\<open>ValueError\<close>; an odd length or a character that is no hexadecimal digit is a
  \<^verbatim>\<open>binascii.Error\<close>; otherwise each pair of digits is a byte.
\<close>

fun hex_pairs :: "string \<Rightarrow> nat list option" where
  "hex_pairs (c0 # c1 # cs) =
     (case (digit_val c0, digit_val c1, hex_pairs cs) of
        (Some v0, Some v1, Some bs) \<Rightarrow> Some ((16 * v0 + v1) # bs)
      | _ \<Rightarrow> None)"
| "hex_pairs [] = Some []"
| "hex_pairs [c] = None"

definition unhexlify :: "string \<Rightarrow> error + nat list" where
  "unhexlify j =
     (if \<not> list_all (\<lambda>c. (of_char c :: nat) < 128) j
      then Inl (ValueError ''string argument should contain only ASCII characters'')
      else if odd (length j) then Inl BinasciiError
      else case hex_pairs j of None \<Rightarrow> Inl BinasciiError | Some bs \<Rightarrow> Inr bs)"

text \<open>
  The comprehension of the \<^verbatim>\<open>if hex:\<close> branch over the tokens of the text: the first
  byte of each token, written as eight binary digits, becomes a bit array. The first token
  that fails raises.
\<close>

fun fromjura_hex :: "string list \<Rightarrow> error + bitarray list" where
  "fromjura_hex [] = Inr []"
| "fromjura_hex (j # js) =
     (case unhexlify j of
        Inl e \<Rightarrow> Inl e
      | Inr bs \<Rightarrow>
          (case bs of
             [] \<Rightarrow> Inl IndexError
           | b # _ \<Rightarrow>
               (case fromjura_hex js of
                  Inl e \<Rightarrow> Inl e
                | Inr rest \<Rightarrow> Inr (bits_of_byte b # rest))))"

text \<open>
  \<^verbatim>\<open>fromjura\<close>. With \<^verbatim>\<open>hex\<close> the text is split and converted before the length
  check; a list has no \<^verbatim>\<open>split\<close>. Without \<^verbatim>\<open>hex\<close> a list goes to the length
  check as it is; a text does too, and one of four characters fails at the first
  \<^verbatim>\<open>bytes[i][2]\<close>, the index 2 of a single character.
\<close>

definition fromjura :: "jura_in \<Rightarrow> bool \<Rightarrow> error + nat list" where
  "fromjura bytes hex =
     (if hex then
        (case bytes of
           Text s \<Rightarrow>
             (case fromjura_hex (py_split s) of
                Inl e \<Rightarrow> Inl e
              | Inr bs \<Rightarrow> fromjura_bits bs)
         | BitList bs \<Rightarrow> Inl AttributeError)
      else
        (case bytes of
           BitList bs \<Rightarrow> fromjura_bits bs
         | Text s \<Rightarrow>
             if length s \<noteq> 4 then Inl (ValueError ''Needs an array of size 4'')
             else Inl IndexError))"

section \<open>Statistics and alerts\<close>

text \<open>
  The reassembly of a decoded payload into counters is written twice in the script, at
  module level, with the width as a literal:
  \<^verbatim>\<open>[int("".join(["%02x" % d for d in decoded[i:i+3]]), 16) for i in range(0, len(decoded), 3)]\<close>
  for the product statistics and the same with 2 for the cleaning counts. \<open>reassemble\<close>
  is that expression with the width \<open>w\<close> as a parameter; \<open>reassemble_from\<close> is the
  iteration over \<^verbatim>\<open>range(0, len(decoded), w)\<close> from index \<open>i\<close> on. A step of 0 makes
  \<^verbatim>\<open>range\<close> raise.
\<close>

function reassemble_from :: "int list \<Rightarrow> nat \<Rightarrow> nat \<Rightarrow> error + int list" where
  "reassemble_from decoded w i =
     (if w = 0 \<or> length decoded \<le> i then Inr []
      else case int16 (concat (map fmt02x (slice decoded i (i + w)))) of
        None \<Rightarrow> Inl (ValueError ''invalid literal for int() with base 16'')
      | Some v \<Rightarrow>
          (case reassemble_from decoded w (i + w) of
             Inl e \<Rightarrow> Inl e
           | Inr vs \<Rightarrow> Inr (v # vs)))"
  by pat_completeness auto
termination
  by (relation "measure (\<lambda>(decoded, w, i). length decoded - i)") auto

declare reassemble_from.simps [simp del]

definition reassemble :: "int list \<Rightarrow> nat \<Rightarrow> error + int list" where
  "reassemble decoded w =
     (if w = 0 then Inl (ValueError ''range() arg 3 must not be zero'')
      else reassemble_from decoded w 0)"

text \<open>
  \<^verbatim>\<open>log_statistics\<close> and \<^verbatim>\<open>log_maintenance\<close> write log lines; the model returns the
  lines in order, each as the tuple of the values it prints. A product is a dictionary
  with the keys \<^verbatim>\<open>Code\<close> and \<^verbatim>\<open>Name\<close>, which is never empty, so \<^verbatim>\<open>if product:\<close>
  asks whether a product was found.
\<close>

record 'n product =
  Code :: int
  Name :: 'n

fun log_statistics_loop ::
  "(nat \<times> int) list \<Rightarrow> 'n product list \<Rightarrow> (int \<times> 'n \<times> int) list" where
  "log_statistics_loop [] products = []"
| "log_statistics_loop ((i, byte) # rest) products =
     (let product_code = int i in
      case find (\<lambda>product. Code product = product_code) products of
        None \<Rightarrow> log_statistics_loop rest products
      | Some product \<Rightarrow>
          (product_code, Name product, if byte = 65535 then 0 else byte)
          # log_statistics_loop rest products)"

definition log_statistics :: "int list \<Rightarrow> 'n product list \<Rightarrow> (int \<times> 'n \<times> int) list" where
  "log_statistics decoded products = log_statistics_loop (enumerate 0 decoded) products"

fun log_maintenance_loop :: "(nat \<times> 'c) list \<Rightarrow> int list \<Rightarrow> 'l \<Rightarrow> ('l \<times> 'c \<times> int) list" where
  "log_maintenance_loop [] decoded label = []"
| "log_maintenance_loop ((i, count) # rest) decoded label =
     (if i < length decoded then (label, count, decoded ! i) # log_maintenance_loop rest decoded label
      else log_maintenance_loop rest decoded label)"

definition log_maintenance :: "int list \<Rightarrow> 'c list \<Rightarrow> 'l \<Rightarrow> ('l \<times> 'c \<times> int) list" where
  "log_maintenance decoded maintenance_list label =
     log_maintenance_loop (enumerate 0 maintenance_list) decoded label"

text \<open>
  \<^verbatim>\<open>extract_alerts\<close>, on the \<^verbatim>\<open>ALERT\<close> elements of the machine file given as pairs of
  the parsed \<^verbatim>\<open>Bit\<close> attribute and the \<^verbatim>\<open>Name\<close> attribute (\<open>None\<close> when the
  attribute is missing). \<^verbatim>\<open>max\<close> of no element raises; an assignment
  \<^verbatim>\<open>alerts[bit] = name\<close> counts a negative index from the end and raises outside the
  list.
\<close>

definition py_setitem :: "'a list \<Rightarrow> int \<Rightarrow> 'a \<Rightarrow> error + 'a list" where
  "py_setitem xs i v =
     (if 0 \<le> i \<and> i < int (length xs) then Inr (xs[nat i := v])
      else if i < 0 \<and> - int (length xs) \<le> i then Inr (xs[nat (int (length xs) + i) := v])
      else Inl IndexError)"

fun extract_alerts_loop :: "(int \<times> 'n option) list \<Rightarrow> 'n option list \<Rightarrow> error + 'n option list" where
  "extract_alerts_loop [] alerts = Inr alerts"
| "extract_alerts_loop ((b, name) # rest) alerts =
     (case py_setitem alerts b name of
        Inl e \<Rightarrow> Inl e
      | Inr alerts' \<Rightarrow> extract_alerts_loop rest alerts')"

definition extract_alerts :: "(int \<times> 'n option) list \<Rightarrow> error + 'n option list" where
  "extract_alerts elems =
     (case map fst elems of
        [] \<Rightarrow> Inl (ValueError ''max() arg is an empty sequence'')
      | b # bs \<Rightarrow> extract_alerts_loop elems (replicate (nat (fold max bs b + 1)) None))"

text \<open>
  The alert scan at module level. A step of the loop tests one bit of \<^verbatim>\<open>decoded\<close>; for a
  set bit it formats the log line, which reads \<^verbatim>\<open>alerts[i]\<close>, and logs it. The state of
  the loop is the list of lines logged so far, each as the pair of the bit index and the
  table entry; the result is that list with the exception that ended the scan, if one did.
  \<open>py_index xs i\<close> is \<^verbatim>\<open>xs[i]\<close> for an index that is not negative.
\<close>

definition py_index :: "'a list \<Rightarrow> int \<Rightarrow> error + 'a" where
  "py_index xs i = (if i < int (length xs) then Inr (xs ! nat i) else Inl IndexError)"

fun alert_loop ::
  "int list \<Rightarrow> 'n option list \<Rightarrow> int list \<Rightarrow> (int \<times> 'n option) list
     \<Rightarrow> (int \<times> 'n option) list \<times> error option" where
  "alert_loop decoded alerts [] logged = (logged, None)"
| "alert_loop decoded alerts (i # is) logged =
     (let offset_abs = drop_bit 3 i + 1;
          offset_byte = 7 - (i AND 7)
      in case py_index decoded offset_abs of
           Inl e \<Rightarrow> (logged, Some e)
         | Inr byte \<Rightarrow>
             if drop_bit (nat offset_byte) byte AND 1 \<noteq> 0 then
               (case py_index alerts i of
                  Inl e \<Rightarrow> (logged, Some e)
                | Inr name \<Rightarrow> alert_loop decoded alerts is (logged @ [(i, name)]))
             else alert_loop decoded alerts is logged)"

definition scan_range :: "int list \<Rightarrow> int list" where
  "scan_range decoded = [0 .. (int (length decoded) - 1) * 8 - 1]"

definition alert_scan ::
  "int list \<Rightarrow> 'n option list \<Rightarrow> (int \<times> 'n option) list \<times> error option" where
  "alert_scan decoded alerts = alert_loop decoded alerts (scan_range decoded) []"

section \<open>The specification's reference definitions\<close>

text \<open>
  The per-nibble transform as the specification writes it: three table lookups, every
  index reduced modulo 256 and then modulo 16, with \<open>aux = (position >> 4) mod 256\<close>.
\<close>

definition Table1 :: "int list" where
  "Table1 = [14, 4, 3, 2, 1, 13, 8, 11, 6, 15, 12, 7, 10, 5, 0, 9]"

definition Table2 :: "int list" where
  "Table2 = [10, 6, 13, 12, 14, 11, 1, 9, 15, 7, 0, 5, 3, 2, 4, 8]"

definition shuffle_spec :: "int \<Rightarrow> int \<Rightarrow> int \<Rightarrow> int \<Rightarrow> int" where
  "shuffle_spec nibble position keyHigh keyLow =
     (let aux = (position div 16) mod 256;
          t1 = Table1 ! nat ((nibble + position + keyHigh) mod 256 mod 16);
          t2 = Table2 ! nat ((t1 + keyLow + aux - position - keyHigh) mod 256 mod 16);
          t3 = Table1 ! nat ((t2 + keyHigh + position - keyLow - aux) mod 256 mod 16)
      in (t3 - position - keyHigh) mod 256 mod 16)"

text \<open>
  The specification's reading of the alert bitmask: bit index \<open>i\<close> lives in the byte at
  offset \<open>1 + (i >> 3)\<close>, at bit position \<open>7 - (i & 7)\<close> counted from the least
  significant bit.
\<close>

definition alert_bit :: "int list \<Rightarrow> int \<Rightarrow> bool" where
  "alert_bit decoded i = bit (decoded ! (1 + nat i div 8)) (7 - nat i mod 8)"

text \<open>
  A group of bytes read as a big-endian unsigned integer, and the groups of \<open>w\<close>
  consecutive bytes of a sequence, the last one shorter when the length is no multiple of
  \<open>w\<close>.
\<close>

definition big_endian :: "int list \<Rightarrow> int" where
  "big_endian g = foldl (\<lambda>a d. 256 * a + d) 0 g"

definition group_at :: "int list \<Rightarrow> nat \<Rightarrow> nat \<Rightarrow> int list" where
  "group_at decoded w j = take w (drop (j * w) decoded)"

text \<open>
  The check of the key recovery, as the specification words it: decoding the payload with
  the candidate as key makes the first decoded byte equal the candidate.
\<close>

definition candidate_ok :: "int list \<Rightarrow> int \<Rightarrow> bool" where
  "candidate_ok data k =
     (case encDecBytes data (fmt02x k) of
        Inr (r0 # _) \<Rightarrow> r0 = k
      | _ \<Rightarrow> False)"

text \<open>The lower-case hexadecimal digits, and the value of a string of them.\<close>

definition lowhex :: "char \<Rightarrow> bool" where
  "lowhex c = (c \<in> set ''0123456789abcdef'')"

definition hexval :: "int \<Rightarrow> string \<Rightarrow> int" where
  "hexval acc s = foldl (\<lambda>a c. 16 * a + int (the (digit_val c))) acc s"

text \<open>
  A byte of the wire format as the specification describes it: the fixed pattern
  \<^verbatim>\<open>01011011\<close> with the first bit of a two-bit group at bit position 2 and the second at
  bit position 5, bit position 0 being the most significant.
\<close>

definition wire_byte :: "bool \<Rightarrow> bool \<Rightarrow> bitarray" where
  "wire_byte g0 g1 = [False, True, g0, True, True, g1, True, True]"


text \<open>The two tables as functions on all integers, through the index modulo 16.\<close>

definition tab1 :: "int \<Rightarrow> int" where
  "tab1 x = numbers1 ! nat (x mod 16)"

definition tab2 :: "int \<Rightarrow> int" where
  "tab2 x = numbers2 ! nat (x mod 16)"

section \<open>Properties of the nibble cipher\<close>

lemma nibble_cases:
  fixes x :: int
  assumes "0 \<le> x" "x < 16"
  shows "x = 0 \<or> x = 1 \<or> x = 2 \<or> x = 3 \<or> x = 4 \<or> x = 5 \<or> x = 6 \<or> x = 7 \<or>
         x = 8 \<or> x = 9 \<or> x = 10 \<or> x = 11 \<or> x = 12 \<or> x = 13 \<or> x = 14 \<or> x = 15"
  using assms by arith

lemma tab1_invol: "tab1 (tab1 x) = x mod 16"
proof -
  have "0 \<le> x mod 16" "x mod 16 < 16" by simp_all
  from nibble_cases [OF this] show ?thesis
    unfolding tab1_def by (elim disjE) (simp_all add: numbers1_def)
qed

lemma tab2_invol: "tab2 (tab2 x) = x mod 16"
proof -
  have "0 \<le> x mod 16" "x mod 16 < 16" by simp_all
  from nibble_cases [OF this] show ?thesis
    unfolding tab2_def by (elim disjE) (simp_all add: numbers2_def)
qed

lemma tab1_cong: "x mod 16 = y mod 16 \<Longrightarrow> tab1 x = tab1 y"
  by (simp add: tab1_def)

lemma tab2_cong: "x mod 16 = y mod 16 \<Longrightarrow> tab2 x = tab2 y"
  by (simp add: tab2_def)

lemma mod256_mod16: "mod256 x mod 16 = x mod 16"
  unfolding mod256_def by (simp add: mod_mod_cancel)

lemma shuffle_tab:
  "shuffle d n kl kr =
     (tab1 (tab2 (tab1 (d + (n + kl)) + (kr + mod256 (drop_bit 4 n) - n - kl))
              - (kr + mod256 (drop_bit 4 n) - n - kl)) - (n + kl)) mod 16"
  unfolding shuffle_def Let_def mod256_mod16 tab1_def tab2_def
  by (simp add: algebra_simps)

lemma shuffle_range: "0 \<le> shuffle d n kl kr \<and> shuffle d n kl kr < 16"
  unfolding shuffle_tab by simp

lemma shuffle_invol_mod: "shuffle (shuffle d n kl kr) n kl kr = d mod 16"
proof -
  define a where "a = n + kl"
  define b where "b = kr + mod256 (drop_bit 4 n) - n - kl"
  define v where "v = tab1 (d + a) + b"
  define u where "u = tab2 v - b"
  have s: "shuffle d n kl kr = (tab1 u - a) mod 16"
    unfolding shuffle_tab u_def v_def a_def b_def ..
  have "tab1 ((tab1 u - a) mod 16 + a) = tab1 (tab1 u)"
    by (rule tab1_cong) (simp add: mod_simps)
  then have 1: "tab1 ((tab1 u - a) mod 16 + a) = u mod 16"
    by (simp add: tab1_invol)
  have "tab2 (u mod 16 + b) = tab2 (tab2 v)"
    unfolding u_def by (rule tab2_cong) (simp add: mod_simps)
  then have 2: "tab2 (u mod 16 + b) = v mod 16"
    by (simp add: tab2_invol)
  have "tab1 (v mod 16 - b) = tab1 (tab1 (d + a))"
    unfolding v_def by (rule tab1_cong) (simp add: mod_simps)
  then have 3: "tab1 (v mod 16 - b) = (d + a) mod 16"
    by (simp add: tab1_invol)
  have "shuffle (shuffle d n kl kr) n kl kr =
     (tab1 (tab2 (tab1 ((tab1 u - a) mod 16 + a) + b) - b) - a) mod 16"
    unfolding s unfolding shuffle_tab a_def b_def ..
  also have "\<dots> = (tab1 (v mod 16 - b) - a) mod 16" by (simp only: 1 2)
  also have "\<dots> = ((d + a) mod 16 - a) mod 16" by (simp only: 3)
  also have "\<dots> = d mod 16" by (simp add: mod_simps)
  finally show ?thesis .
qed

lemma tables_eq: "numbers1 = Table1" "numbers2 = Table2"
  unfolding numbers1_def numbers2_def Table1_def Table2_def by (rule refl)+

lemma shift4: "drop_bit 4 (n::int) = n div 16"
  by (simp add: drop_bit_eq_div)

lemma shuffle_eq_spec: "shuffle d n kl kr = shuffle_spec d n kl kr"
  unfolding shuffle_def shuffle_spec_def mod256_def tables_eq shift4
  by (rule refl)

lemma and15_take: "(x::int) AND 15 = take_bit 4 x"
  using take_bit_eq_mask [of 4 x] by (simp add: mask_eq_exp_minus_1)

lemma nibble_join_range:
  fixes l r :: int
  assumes "0 \<le> l" "l < 16" "0 \<le> r" "r < 16"
  shows "0 \<le> (push_bit 4 l OR r) \<and> (push_bit 4 l OR r) < 256"
proof -
  have "0 \<le> push_bit 4 l" using assms by simp
  moreover have "push_bit 4 l < 2 ^ 8" using assms by (simp add: push_bit_eq_mult)
  moreover have "r < 2 ^ 8" using assms by simp
  ultimately show ?thesis using OR_upper [of "push_bit 4 l" 8 r] assms by simp
qed

lemma nibble_join_high:
  fixes l r :: int
  assumes "0 \<le> r" "r < 16"
  shows "drop_bit 4 (push_bit 4 l OR r) = l"
proof -
  have "drop_bit 4 r = 0" using assms by (simp add: drop_bit_eq_div)
  then show ?thesis by (simp add: drop_bit_push_bit)
qed

lemma nibble_join_low:
  fixes l r :: int
  assumes "0 \<le> r" "r < 16"
  shows "(push_bit 4 l OR r) AND 15 = r"
proof -
  have "take_bit 4 (push_bit 4 l OR r) = take_bit 4 r"
    by (simp add: take_bit_push_bit)
  then show ?thesis using assms by (simp add: and15_take take_bit_eq_mod)
qed

lemma byte_split:
  fixes d :: int
  assumes "0 \<le> d" "d < 256"
  shows "drop_bit 4 d mod 16 = drop_bit 4 d" and "(d AND 15) mod 16 = d AND 15"
  using assms by (simp_all add: and15_take take_bit_eq_mod drop_bit_eq_div)

lemma byte_join:
  fixes d :: int
  shows "push_bit 4 (drop_bit 4 d) OR (d AND 15) = d"
  unfolding and15_take
  by (rule bit_eqI) (auto simp add: bit_simps)

lemma length_encDecLoop: "length (encDecLoop data kl kr n) = length data"
  by (induction data arbitrary: n) (simp_all add: Let_def)

lemma encDecLoop_nth:
  "i < length data \<Longrightarrow>
   encDecLoop data kl kr n ! i =
     push_bit 4 (shuffle (drop_bit 4 (data ! i)) (n + 2 * int i) kl kr)
       OR shuffle (data ! i AND 15) (n + 2 * int i + 1) kl kr"
proof (induction data arbitrary: n i)
  case Nil
  then show ?case by simp
next
  case (Cons d data)
  show ?case
  proof (cases i)
    case 0
    then show ?thesis by (simp add: Let_def)
  next
    case (Suc j)
    with Cons.prems have "j < length data" by simp
    from Cons.IH [OF this, of "n + 2"] Suc show ?thesis
      by (simp add: Let_def algebra_simps)
  qed
qed

lemma encDecLoop_range:
  "e \<in> set (encDecLoop data kl kr n) \<Longrightarrow> 0 \<le> e \<and> e < 256"
proof (induction data arbitrary: n)
  case Nil
  then show ?case by simp
next
  case (Cons d data)
  have "0 \<le> push_bit 4 (shuffle (drop_bit 4 d) n kl kr) OR shuffle (d AND 15) (n + 1) kl kr
      \<and> push_bit 4 (shuffle (drop_bit 4 d) n kl kr) OR shuffle (d AND 15) (n + 1) kl kr < 256"
    using shuffle_range by (intro nibble_join_range) simp_all
  with Cons show ?case by (auto simp add: Let_def)
qed

lemma encDecLoop_invol:
  "\<forall>d \<in> set data. 0 \<le> d \<and> d < 256 \<Longrightarrow>
   encDecLoop (encDecLoop data kl kr n) kl kr n = data"
proof (induction data arbitrary: n)
  case Nil
  then show ?case by simp
next
  case (Cons d data)
  define l where "l = shuffle (drop_bit 4 d) n kl kr"
  define r where "r = shuffle (d AND 15) (n + 1) kl kr"
  define b where "b = push_bit 4 l OR r"
  define rest where "rest = encDecLoop data kl kr (n + 2)"
  have d: "0 \<le> d" "d < 256" using Cons.prems by simp_all
  have r: "0 \<le> r" "r < 16" unfolding r_def using shuffle_range by simp_all
  have hi: "drop_bit 4 b = l" unfolding b_def using r by (rule nibble_join_high)
  have lo: "b AND 15 = r" unfolding b_def using r by (rule nibble_join_low)
  have sl: "shuffle l n kl kr = drop_bit 4 d"
    unfolding l_def shuffle_invol_mod using d by (rule byte_split)
  have sr: "shuffle r (n + 1) kl kr = d AND 15"
    unfolding r_def shuffle_invol_mod using d by (rule byte_split)
  have ih: "encDecLoop rest kl kr (n + 2) = data"
    unfolding rest_def using Cons.prems by (intro Cons.IH) simp
  have "encDecLoop (d # data) kl kr n = b # rest"
    unfolding b_def l_def r_def rest_def by (simp only: encDecLoop.simps Let_def)
  moreover have "encDecLoop (b # rest) kl kr n =
      (push_bit 4 (shuffle (drop_bit 4 b) n kl kr) OR shuffle (b AND 15) (n + 1) kl kr)
      # encDecLoop rest kl kr (n + 2)"
    by (simp only: encDecLoop.simps Let_def)
  ultimately show ?case
    by (simp only: hi lo sl sr ih byte_join)
qed

text \<open>
  Claim C1. For a key text that parses to \<open>k\<close>, the byte of the result of
  \<^verbatim>\<open>encDecBytes\<close> at payload index \<open>i\<close> is \<open>(h' << 4) | l'\<close>, where \<open>h'\<close> is the
  shuffle of the high nibble at position \<open>2i\<close> and \<open>l'\<close> the shuffle of the low nibble at
  position \<open>2i + 1\<close>, both with \<open>keyHigh = k >> 4\<close> and \<open>keyLow = k & 15\<close>; and
  \<^verbatim>\<open>shuffle\<close> is the three-table reference definition of the specification, with every
  sum wrapped modulo 256 before the reduction modulo 16.
\<close>

theorem encDecBytes_byte_transform:
  assumes "int16 key = Some k" and "i < length data"
  shows "shuffle nibble position keyHigh keyLow = shuffle_spec nibble position keyHigh keyLow
    \<and> (\<exists>r. encDecBytes data key = Inr r \<and> length r = length data
          \<and> r ! i = push_bit 4 (shuffle_spec (drop_bit 4 (data ! i)) (2 * int i) (drop_bit 4 k) (k AND 15))
                     OR shuffle_spec (data ! i AND 15) (2 * int i + 1) (drop_bit 4 k) (k AND 15))"
  using assms
  by (simp add: encDecBytes_def encDecLoop_nth length_encDecLoop shuffle_eq_spec)

theorem encDecBytes_byte_transform_witness:
  "int16 ''5a'' = Some 90 \<and> (1::nat) < length [90, 0, 61 :: int]
   \<and> shuffle 3 7 5 10 = shuffle_spec 3 7 5 10
   \<and> (\<exists>r. encDecBytes [90, 0, 61] ''5a'' = Inr r \<and> length r = length [90, 0, 61 :: int]
          \<and> r ! 1 = push_bit 4 (shuffle_spec (drop_bit 4 ([90, 0, 61] ! 1)) (2 * int 1) (drop_bit 4 90) (90 AND 15))
                     OR shuffle_spec ([90, 0, 61] ! 1 AND 15) (2 * int 1 + 1) (drop_bit 4 90) (90 AND 15))"
proof -
  have h1: "int16 ''5a'' = Some 90" by code_simp
  have h2: "(1::nat) < length [90, 0, 61 :: int]" by simp
  from encDecBytes_byte_transform [OF h1 h2, of 3 7 5 10]
  have c: "shuffle 3 7 5 10 = shuffle_spec 3 7 5 10
   \<and> (\<exists>r. encDecBytes [90, 0, 61] ''5a'' = Inr r \<and> length r = length [90, 0, 61 :: int]
          \<and> r ! 1 = push_bit 4 (shuffle_spec (drop_bit 4 ([90, 0, 61] ! 1)) (2 * int 1) (drop_bit 4 90) (90 AND 15))
                     OR shuffle_spec ([90, 0, 61] ! 1 AND 15) (2 * int 1 + 1) (drop_bit 4 90) (90 AND 15))" .
  show ?thesis by (rule conjI [OF h1 conjI [OF h2 c]])
qed

text \<open>
  Claim C2. For a key text that parses (every two-digit key \<^verbatim>\<open>00\<close> to \<^verbatim>\<open>ff\<close> does) and
  every payload of bytes 0..255, \<^verbatim>\<open>encDecBytes\<close> with that key applied to its own result
  gives the payload back.
\<close>

theorem encDecBytes_self_inverse:
  assumes "int16 key = Some k" and "\<forall>d \<in> set p. 0 \<le> d \<and> d < 256"
  shows "\<exists>c. encDecBytes p key = Inr c \<and> encDecBytes c key = Inr p"
  using assms by (simp add: encDecBytes_def encDecLoop_invol)

theorem encDecBytes_self_inverse_witness:
  "int16 ''5a'' = Some 90 \<and> list_all (\<lambda>d. 0 \<le> d \<and> d < 256) [90, 0, 61 :: int]
   \<and> (\<exists>c. encDecBytes [90, 0, 61] ''5a'' = Inr c \<and> encDecBytes c ''5a'' = Inr [90, 0, 61])"
proof -
  have h1: "int16 ''5a'' = Some 90" by code_simp
  have h2: "\<forall>d \<in> set [90, 0, 61 :: int]. 0 \<le> d \<and> d < 256" by simp
  have h3: "list_all (\<lambda>d. 0 \<le> d \<and> d < 256) [90, 0, 61 :: int]" by simp
  show ?thesis
    by (rule conjI [OF h1 conjI [OF h3 encDecBytes_self_inverse [OF h1 h2]]])
qed

text \<open>
  Claim C10. For a key text that parses and every input list, \<^verbatim>\<open>encDecBytes\<close> returns a
  list of the length of its input whose elements all lie in 0..255.
\<close>

theorem encDecBytes_length_range:
  assumes "int16 key = Some k"
  shows "\<exists>r. encDecBytes data key = Inr r \<and> length r = length data
    \<and> (\<forall>e \<in> set r. 0 \<le> e \<and> e < 256)"
  using assms encDecLoop_range [of _ data]
  by (simp add: encDecBytes_def length_encDecLoop)

theorem encDecBytes_length_range_witness:
  "int16 ''5a'' = Some 90
   \<and> (\<exists>r. encDecBytes [90, 0, 61] ''5a'' = Inr r \<and> length r = length [90, 0, 61 :: int]
          \<and> (\<forall>e \<in> set r. 0 \<le> e \<and> e < 256))"
proof -
  have h1: "int16 ''5a'' = Some 90" by code_simp
  show ?thesis
    by (rule conjI [OF h1 encDecBytes_length_range [OF h1]])
qed

section \<open>Hexadecimal text\<close>

lemma lowhex_cases:
  assumes "lowhex c"
  shows "c = CHR ''0'' \<or> c = CHR ''1'' \<or> c = CHR ''2'' \<or> c = CHR ''3'' \<or> c = CHR ''4''
    \<or> c = CHR ''5'' \<or> c = CHR ''6'' \<or> c = CHR ''7'' \<or> c = CHR ''8'' \<or> c = CHR ''9''
    \<or> c = CHR ''a'' \<or> c = CHR ''b'' \<or> c = CHR ''c'' \<or> c = CHR ''d'' \<or> c = CHR ''e''
    \<or> c = CHR ''f''"
  using assms unfolding lowhex_def by simp

lemma lowhex_plain:
  assumes "lowhex c"
  shows "\<not> is_space c" "c \<noteq> CHR ''-''" "c \<noteq> CHR ''+''" "c \<noteq> CHR ''_''"
    "c \<noteq> CHR ''x''" "c \<noteq> CHR ''X''" "digit_val c \<noteq> None" "ascii_space c = c"
  using lowhex_cases [OF assms]
  by (auto simp add: is_space_def digit_val_def ascii_space_def)

lemma map_ascii_space_lowhex: "\<forall>c \<in> set s. lowhex c \<Longrightarrow> map ascii_space s = s"
  by (induction s) (simp_all add: lowhex_plain)

lemma hexdigit_table:
  "list_all (\<lambda>n. lowhex (hexdigit n) \<and> digit_val (hexdigit n) = Some n) [0..<16]"
  by code_simp

lemma hexdigit_props:
  assumes "n < 16"
  shows "lowhex (hexdigit n)" "digit_val (hexdigit n) = Some n"
proof -
  have "n \<in> set [0..<16]" using assms by simp
  with hexdigit_table [unfolded list_all_iff]
  have "lowhex (hexdigit n) \<and> digit_val (hexdigit n) = Some n" by (rule bspec)
  then show "lowhex (hexdigit n)" "digit_val (hexdigit n) = Some n" by simp_all
qed

lemma hex_body_lowhex:
  "\<forall>c \<in> set s. lowhex c \<Longrightarrow> hex_body s acc False = Some (hexval acc s)"
proof (induction s arbitrary: acc)
  case Nil
  then show ?case by (simp add: hexval_def)
next
  case (Cons c s)
  then have c: "lowhex c" by simp
  from lowhex_plain(7) [OF c] obtain v where v: "digit_val c = Some v" by auto
  from Cons have "hex_body s (16 * acc + int v) False = Some (hexval (16 * acc + int v) s)"
    by simp
  with v lowhex_plain(4) [OF c] show ?case by (simp add: hexval_def)
qed

lemma strip_lowhex:
  assumes "s \<noteq> []" "\<forall>c \<in> set s. lowhex c"
  shows "strip s = s"
proof -
  from assms obtain c r where s: "s = c # r" by (cases s) auto
  with assms have "\<not> is_space c" using lowhex_plain(1) by simp
  then have 1: "dropWhile is_space s = s" using s by simp
  have "rev s \<noteq> []" using assms by simp
  then obtain l q where rs: "rev s = l # q" by (cases "rev s") auto
  then have "l \<in> set s" by (metis list.set_intros(1) set_rev)
  with assms have "\<not> is_space l" using lowhex_plain(1) by blast
  then have "dropWhile is_space (rev s) = rev s" using rs by simp
  with 1 show ?thesis by (simp add: strip_def)
qed

lemma int16_lowhex:
  assumes "s \<noteq> []" "\<forall>c \<in> set s. lowhex c"
  shows "int16 s = Some (hexval 0 s)"
proof -
  from assms obtain c r where s: "s = c # r" by (cases s) auto
  with assms have c: "lowhex c" by simp
  have body: "hex_body s 0 False = Some (hexval 0 s)"
    using assms(2) by (rule hex_body_lowhex)
  show ?thesis
  proof (cases r)
    case Nil
    with s c body lowhex_plain [OF c] strip_lowhex [OF assms] map_ascii_space_lowhex [OF assms(2)] show ?thesis
      by (simp add: int16_def)
  next
    case (Cons x r')
    with s assms have x: "lowhex x" by simp
    with Cons s c body lowhex_plain [OF c] lowhex_plain [OF x] strip_lowhex [OF assms]
      map_ascii_space_lowhex [OF assms(2)]
    show ?thesis
      by (simp add: int16_def)
  qed
qed

lemma fmt02x_byte:
  assumes "0 \<le> d" "d < 256"
  shows "fmt02x d = [hexdigit (nat d div 16), hexdigit (nat d mod 16)]"
proof (cases "nat d < 16")
  case True
  then have "hex_digits (nat d) = [hexdigit (nat d)]" by (simp add: hex_digits.simps)
  with True assms show ?thesis by (simp add: fmt02x_def Let_def hexdigit_def)
next
  case False
  have "nat d div 16 < 16" using assms by simp
  then have "hex_digits (nat d div 16) = [hexdigit (nat d div 16)]"
    by (simp add: hex_digits.simps)
  with False have "hex_digits (nat d) = [hexdigit (nat d div 16), hexdigit (nat d mod 16)]"
    by (subst hex_digits.simps) simp
  with assms show ?thesis by (simp add: fmt02x_def Let_def)
qed

lemma fmt02x_lowhex:
  assumes "0 \<le> d" "d < 256"
  shows "\<forall>c \<in> set (fmt02x d). lowhex c" "fmt02x d \<noteq> []"
  using assms by (simp_all add: fmt02x_byte hexdigit_props)

lemma hexval_fmt02x:
  assumes "0 \<le> d" "d < 256"
  shows "hexval acc (fmt02x d @ rest) = hexval (256 * acc + d) rest"
proof -
  have e: "16 * (16 * acc + int (nat d div 16)) + int (nat d mod 16) = 256 * acc + d"
    using assms by (simp add: zdiv_int zmod_int)
  have "nat d div 16 < 16" "nat d mod 16 < 16" using assms by simp_all
  then have "hexval acc (fmt02x d @ rest) =
      hexval (16 * (16 * acc + int (nat d div 16)) + int (nat d mod 16)) rest"
    using assms by (simp add: fmt02x_byte hexval_def hexdigit_props)
  from this [unfolded e] show ?thesis .
qed

lemma int16_fmt02x:
  assumes "0 \<le> k" "k \<le> 255"
  shows "int16 (fmt02x k) = Some k"
proof -
  have k: "0 \<le> k" "k < 256" using assms by simp_all
  have "int16 (fmt02x k) = Some (hexval 0 (fmt02x k))"
    using fmt02x_lowhex [OF k] by (intro int16_lowhex) simp_all
  moreover have "hexval 0 (fmt02x k @ []) = hexval (256 * 0 + k) []"
    using k by (rule hexval_fmt02x)
  ultimately show ?thesis by (simp add: hexval_def)
qed


section \<open>Key recovery\<close>

lemma encDecBytes_fmt02x:
  assumes "0 \<le> k" "k \<le> 255"
  shows "encDecBytes data (fmt02x k) = Inr (encDecLoop data (drop_bit 4 k) (k AND 15) 0)"
  using int16_fmt02x [OF assms] by (simp add: encDecBytes_def)

lemma bruteforce_loop_find:
  assumes "data \<noteq> []" "\<forall>k \<in> set ks. 0 \<le> k \<and> k \<le> 255"
  shows "bruteforce_loop data ks = Inr (map_option fmt02x (find (candidate_ok data) ks))"
  using assms(2)
proof (induction ks)
  case Nil
  then show ?case by simp
next
  case (Cons k ks)
  then have k: "0 \<le> k" "k \<le> 255" by simp_all
  from assms(1) obtain d rest where data: "data = d # rest" by (cases data) auto
  obtain r0 rs where r: "encDecLoop data (drop_bit 4 k) (k AND 15) 0 = r0 # rs"
    unfolding data by (simp add: Let_def)
  have ok: "candidate_ok data k = (r0 = k)"
    by (simp add: candidate_ok_def encDecBytes_fmt02x [OF k] r)
  have ih: "bruteforce_loop data ks = Inr (map_option fmt02x (find (candidate_ok data) ks))"
    using Cons by simp
  show ?case
    by (simp add: Let_def encDecBytes_fmt02x [OF k] r int16_fmt02x [OF k] ok ih)
qed

lemma find_upto:
  "find P [a..b] = Some k \<longleftrightarrow> a \<le> k \<and> k \<le> b \<and> P k \<and> (\<forall>j. a \<le> j \<and> j < k \<longrightarrow> \<not> P j)"
proof (induction "nat (b - a + 1)" arbitrary: a)
  case 0
  then have "[a..b] = []" by simp
  moreover have "\<not> (a \<le> k \<and> k \<le> b)" using 0 by arith
  ultimately show ?case by simp
next
  case (Suc n)
  then have ab: "a \<le> b" by arith
  then have u: "[a..b] = a # [a + 1..b]" by (simp add: upto_rec1)
  have n: "n = nat (b - (a + 1) + 1)" using Suc by arith
  show ?case
  proof (cases "P a")
    case True
    have "(a \<le> k \<and> k \<le> b \<and> P k \<and> (\<forall>j. a \<le> j \<and> j < k \<longrightarrow> \<not> P j)) \<longleftrightarrow> k = a"
      using True ab by (metis order_refl less_le not_less)
    with True u show ?thesis by auto
  next
    case False
    have "(a \<le> k \<and> k \<le> b \<and> P k \<and> (\<forall>j. a \<le> j \<and> j < k \<longrightarrow> \<not> P j))
      \<longleftrightarrow> (a + 1 \<le> k \<and> k \<le> b \<and> P k \<and> (\<forall>j. a + 1 \<le> j \<and> j < k \<longrightarrow> \<not> P j))"
      using False by (smt (verit))
    with False u Suc(1) [OF n] show ?thesis by simp
  qed
qed

lemma find_upto_None:
  "find P [a..b] = None \<longleftrightarrow> (\<forall>k. a \<le> k \<and> k \<le> b \<longrightarrow> \<not> P k)"
  by (auto simp add: find_None_iff)

text \<open>
  Claim C3. For a payload text that parses to a non-empty payload, \<^verbatim>\<open>bruteforce_key\<close>
  returns normally; it returns the two-digit text of a candidate exactly when that
  candidate is the smallest one in 0..255 that passes the check (decoding the payload with
  the candidate makes the first decoded byte equal the candidate), and it returns
  \<^verbatim>\<open>None\<close> exactly when no candidate in 0..255 passes.
\<close>

theorem bruteforce_key_least:
  assumes "ints16 (py_split s) = Inr data" and "data \<noteq> []"
  shows "(\<exists>r. bruteforce_key s = Inr r)
    \<and> (bruteforce_key s = Inr None \<longleftrightarrow> (\<forall>k. 0 \<le> k \<and> k \<le> 255 \<longrightarrow> \<not> candidate_ok data k))
    \<and> (\<forall>key_hex. bruteforce_key s = Inr (Some key_hex) \<longleftrightarrow>
          (\<exists>k. 0 \<le> k \<and> k \<le> 255 \<and> key_hex = fmt02x k \<and> candidate_ok data k
               \<and> (\<forall>j. 0 \<le> j \<and> j < k \<longrightarrow> \<not> candidate_ok data j)))"
proof -
  have b: "bruteforce_key s = Inr (map_option fmt02x (find (candidate_ok data) [0..255]))"
    using assms by (simp add: bruteforce_key_def bruteforce_loop_find)
  have 1: "\<exists>r. bruteforce_key s = Inr r" using b by simp
  have 2: "bruteforce_key s = Inr None \<longleftrightarrow> (\<forall>k. 0 \<le> k \<and> k \<le> 255 \<longrightarrow> \<not> candidate_ok data k)"
    unfolding b by (simp add: find_upto_None)
  have 3: "bruteforce_key s = Inr (Some key_hex) \<longleftrightarrow>
          (\<exists>k. 0 \<le> k \<and> k \<le> 255 \<and> key_hex = fmt02x k \<and> candidate_ok data k
               \<and> (\<forall>j. 0 \<le> j \<and> j < k \<longrightarrow> \<not> candidate_ok data j))" for key_hex
    unfolding b by (auto simp add: find_upto)
  from 1 2 3 show ?thesis by blast
qed

theorem bruteforce_key_least_witness:
  "ints16 (py_split ''2b 00 3d'') = Inr [43, 0, 61] \<and> [43, 0, 61 :: int] \<noteq> []
   \<and> bruteforce_key ''2b 00 3d'' = Inr (Some ''03'')
   \<and> (\<exists>k. 0 \<le> k \<and> k \<le> 255 \<and> ''03'' = fmt02x k \<and> candidate_ok [43, 0, 61] k
          \<and> (\<forall>j. 0 \<le> j \<and> j < k \<longrightarrow> \<not> candidate_ok [43, 0, 61] j))"
proof -
  have h1: "ints16 (py_split ''2b 00 3d'') = Inr [43, 0, 61]" by code_simp
  have h2: "[43, 0, 61 :: int] \<noteq> []" by simp
  have e: "bruteforce_key ''2b 00 3d'' = Inr (Some ''03'')" by code_simp
  note t = bruteforce_key_least [OF h1 h2, THEN conjunct2, THEN conjunct2, THEN spec, of "''03''"]
  from t e have x: "\<exists>k. 0 \<le> k \<and> k \<le> 255 \<and> ''03'' = fmt02x k \<and> candidate_ok [43, 0, 61] k
          \<and> (\<forall>j. 0 \<le> j \<and> j < k \<longrightarrow> \<not> candidate_ok [43, 0, 61] j)"
    by (rule iffD1)
  show ?thesis by (rule conjI [OF h1 conjI [OF h2 conjI [OF e x]]])
qed

section \<open>The character codec\<close>




lemma bits_of_byte_list:
  "bits_of_byte b = [bit b 7, bit b 6, bit b 5, bit b 4, bit b 3, bit b 2, bit b 1, bit b 0]"
  by (simp add: bits_of_byte_def)

lemma last8_frombytes: "last8 (frombytes (pre @ [b])) = bits_of_byte b"
  by (simp add: last8_def frombytes_def bits_of_byte_list)

lemma tojura_bits:
  assumes "length letter = 1" and "utf8_encode letter = Inr (pre @ [b])"
  shows "tojura letter False =
     Inr (WireBits [wire_byte (bit b 1) (bit b 0), wire_byte (bit b 3) (bit b 2),
                    wire_byte (bit b 5) (bit b 4), wire_byte (bit b 7) (bit b 6)])"
  using assms
  by (simp add: tojura_def Let_def last8_frombytes bits_of_byte_list slice_def)
     (simp add: base_layout_def wire_byte_def eval_nat_numeral)

lemma fromjura_bits_wire:
  "fromjura_bits [wire_byte a0 a1, wire_byte b0 b1, wire_byte c0 c1, wire_byte d0 d1]
     = utf8_decode_byte (byte_of_bits [d0, d1, c0, c1, b0, b1, a0, a1])"
  by (simp add: fromjura_bits_def wire_byte_def Let_def slice_def numeral_eq_Suc)

lemma fromjura_wire:
  "fromjura (BitList [wire_byte a0 a1, wire_byte b0 b1, wire_byte c0 c1, wire_byte d0 d1]) False
     = utf8_decode_byte (byte_of_bits [d0, d1, c0, c1, b0, b1, a0, a1])"
  by (simp add: fromjura_def fromjura_bits_wire)

lemma foldl_bits_horner:
  "foldl (\<lambda>a b. 2 * a + (if b then 1 else 0)) acc bs
     = acc * 2 ^ length bs + horner_sum of_bool (2::nat) (rev bs)"
  by (induction bs arbitrary: acc) (simp_all add: horner_sum_append algebra_simps)

lemma rev_upt8: "rev [0..<8] = [7, 6, 5, 4, 3, 2, 1, 0 :: nat]"
  by code_simp

lemma byte_of_bits_of_byte:
  assumes "b < 256"
  shows "byte_of_bits (bits_of_byte b) = b"
proof -
  have "bits_of_byte b = rev (map (bit b) [0..<8])"
    unfolding bits_of_byte_def rev_upt8 [symmetric] by (simp only: rev_map)
  then have "byte_of_bits (bits_of_byte b) = horner_sum of_bool 2 (map (bit b) [0..<8])"
    by (simp add: byte_of_bits_def foldl_bits_horner)
  also have "\<dots> = take_bit 8 b" by (rule horner_sum_bit_eq_take_bit)
  also have "\<dots> = b" using assms by (simp add: take_bit_eq_mod)
  finally show ?thesis .
qed

text \<open>
  On the characters 0..127, which \<^verbatim>\<open>encode\<close> turns into one byte, the round trip gives
  the character back. On the characters 128..255 the last byte of the encoding is a
  continuation byte, and decoding it alone raises.
\<close>

lemma jura_roundtrip_ascii:
  assumes "c < 128"
  shows "\<exists>w. tojura [c] False = Inr (WireBits w) \<and> length w = 4
    \<and> fromjura (BitList w) False = Inr [c]"
proof -
  have e: "utf8_encode [c] = Inr ([] @ [c])"
    using assms by (simp add: utf8_encode_cp_def)
  have c: "c < 256" using assms by simp
  have "byte_of_bits [bit c 7, bit c 6, bit c 5, bit c 4, bit c 3, bit c 2, bit c 1, bit c 0] = c"
    using byte_of_bits_of_byte [OF c] by (simp only: bits_of_byte_list)
  then show ?thesis
    using assms by (simp add: tojura_bits [OF _ e] fromjura_wire utf8_decode_byte_def)
qed

lemma jura_roundtrip_latin1_fails:
  assumes "128 \<le> c" "c < 256"
  shows "\<exists>w. tojura [c] False = Inr (WireBits w)
    \<and> fromjura (BitList w) False = Inl UnicodeDecodeError"
proof -
  define b where "b = 128 + c mod 64"
  have e: "utf8_encode [c] = Inr ([192 + c div 64] @ [b])"
    using assms by (simp add: utf8_encode_cp_def b_def)
  have b: "b < 256" "128 \<le> b" unfolding b_def by simp_all
  have "byte_of_bits [bit b 7, bit b 6, bit b 5, bit b 4, bit b 3, bit b 2, bit b 1, bit b 0] = b"
    using byte_of_bits_of_byte [OF b(1)] by (simp only: bits_of_byte_list)
  then show ?thesis
    using b by (simp add: tojura_bits [OF _ e] fromjura_wire utf8_decode_byte_def)
qed

text \<open>
  The layout of the four wire bytes for a character 0..127: byte \<open>i\<close> carries the pair
  of bits number \<open>3 - i\<close>, counted from the most significant pair.
\<close>

lemma tojura_ascii_layout:
  assumes "c < 128"
  shows "tojura [c] False =
     Inr (WireBits [wire_byte (bit c 1) (bit c 0), wire_byte (bit c 3) (bit c 2),
                    wire_byte (bit c 5) (bit c 4), wire_byte (bit c 7) (bit c 6)])"
proof -
  have e: "utf8_encode [c] = Inr ([] @ [c])"
    using assms by (simp add: utf8_encode_cp_def)
  show ?thesis by (rule tojura_bits [OF _ e]) simp
qed









text \<open>
  Claim C4, at the character \<^verbatim>\<open>chr(233)\<close>. Its UTF-8 encoding is the two bytes
  \<^verbatim>\<open>c3 a9\<close>; \<^verbatim>\<open>tojura\<close> keeps the last eight bits, the byte \<^verbatim>\<open>a9\<close>, and
  \<^verbatim>\<open>fromjura\<close> of the four wire bytes raises \<^verbatim>\<open>UnicodeDecodeError\<close>, since \<^verbatim>\<open>a9\<close>
  alone is no UTF-8 text. The round trip does not give the character back, without
  \<^verbatim>\<open>hex\<close> and with it.
\<close>

theorem jura_roundtrip_chr233:
  "tojura [233] False
     = Inr (WireBits [wire_byte False True, wire_byte True False, wire_byte True False, wire_byte True False])
   \<and> fromjura (BitList [wire_byte False True, wire_byte True False, wire_byte True False, wire_byte True False]) False
       = Inl UnicodeDecodeError
   \<and> tojura [233] True = Inr (WireHex ''5f 7b 7b 7b'')
   \<and> fromjura (Text ''5f 7b 7b 7b'') True = Inl UnicodeDecodeError"
  by code_simp

text \<open>
  Claim C5, at the character \<^verbatim>\<open>chr(233)\<close>, whose eight bits are \<^verbatim>\<open>11101001\<close>. The last
  wire byte, which is to carry group 0, the most significant pair \<^verbatim>\<open>11\<close>, carries
  \<^verbatim>\<open>10\<close>: the four wire bytes hold the groups of \<^verbatim>\<open>a9 = 10101001\<close>, the last byte of
  the UTF-8 encoding.
\<close>

theorem tojura_chr233_groups:
  "tojura [233] False
     = Inr (WireBits [wire_byte False True, wire_byte True False, wire_byte True False, wire_byte True False])
   \<and> bits_of_byte 233 = [True, True, True, False, True, False, False, True]
   \<and> bits_of_byte 169 = [True, False, True, False, True, False, False, True]"
  by code_simp

section \<open>Reassembly of counters\<close>

lemma hexval_bytes:
  "\<forall>d \<in> set g. 0 \<le> d \<and> d < 256 \<Longrightarrow>
   hexval acc (concat (map fmt02x g)) = foldl (\<lambda>a d. 256 * a + d) acc g"
proof (induction g arbitrary: acc)
  case Nil
  then show ?case by (simp add: hexval_def)
next
  case (Cons d g)
  then have d: "0 \<le> d" "d < 256" by simp_all
  have "hexval acc (fmt02x d @ concat (map fmt02x g)) = hexval (256 * acc + d) (concat (map fmt02x g))"
    using d by (rule hexval_fmt02x)
  with Cons show ?case by simp
qed

lemma int16_bytes:
  assumes "g \<noteq> []" "\<forall>d \<in> set g. 0 \<le> d \<and> d < 256"
  shows "int16 (concat (map fmt02x g)) = Some (big_endian g)"
proof -
  from assms(1) obtain d r where g: "g = d # r" by (cases g) auto
  have "concat (map fmt02x g) \<noteq> []"
    using assms(2) fmt02x_lowhex(2) [of d] by (simp add: g)
  moreover have "\<forall>c \<in> set (concat (map fmt02x g)). lowhex c"
    using assms(2) fmt02x_lowhex(1) by auto
  ultimately have "int16 (concat (map fmt02x g)) = Some (hexval 0 (concat (map fmt02x g)))"
    by (rule int16_lowhex)
  then show ?thesis using hexval_bytes [OF assms(2)] by (simp add: big_endian_def)
qed

lemma count_step:
  fixes n i w :: nat
  assumes "i < n" "0 < w"
  shows "(n - i + w - 1) div w = Suc ((n - (i + w) + w - 1) div w)"
proof (cases "i + w \<le> n")
  case True
  define y where "y = n - (i + w) + w - 1"
  have x: "n - i + w - 1 = y + w" unfolding y_def using True assms by linarith
  have "(y + w) div w = Suc (y div w)" using div_add_self2 [of w y] assms(2) by simp
  then show ?thesis unfolding x y_def .
next
  case False
  define x where "x = n - i + w - 1"
  have z: "n - (i + w) + w - 1 = w - 1" using False by linarith
  have "(w - 1) div w = 0" using assms(2) by simp
  moreover have "w * 1 \<le> x" "x < w * Suc 1" unfolding x_def using assms False by simp_all
  then have "x div w = 1" by (rule div_nat_eqI)
  ultimately show ?thesis unfolding z x_def by simp
qed

lemma slice_take_drop: "slice xs i (i + w) = take w (drop i xs)"
  by (simp add: slice_def)

lemma reassemble_from_groups:
  assumes "\<forall>d \<in> set decoded. 0 \<le> d \<and> d < 256" "0 < w"
  shows "\<exists>vs. reassemble_from decoded w i = Inr vs
    \<and> length vs = (length decoded - i + w - 1) div w
    \<and> (\<forall>j < length vs. vs ! j = big_endian (take w (drop (i + j * w) decoded)))"
  using assms
proof (induction decoded w i rule: reassemble_from.induct)
  case (1 decoded w i)
  show ?case
  proof (cases "length decoded \<le> i")
    case True
    then have "reassemble_from decoded w i = Inr []"
      by (subst reassemble_from.simps) simp
    moreover have "(length decoded - i + w - 1) div w = 0"
      using True "1.prems"(2) by simp
    ultimately show ?thesis by simp
  next
    case False
    define g where "g = take w (drop i decoded)"
    have ne: "g \<noteq> []" unfolding g_def using False "1.prems"(2) by simp
    have "set g \<subseteq> set decoded"
      unfolding g_def by (meson set_take_subset set_drop_subset subset_trans)
    with "1.prems"(1) have rg: "\<forall>d \<in> set g. 0 \<le> d \<and> d < 256" by blast
    have p: "int16 (concat (map fmt02x (slice decoded i (i + w)))) = Some (big_endian g)"
      unfolding slice_take_drop g_def [symmetric] using ne rg by (rule int16_bytes)
    have c: "\<not> (w = 0 \<or> length decoded \<le> i)" using False "1.prems"(2) by simp
    from "1.IH" [OF c p "1.prems"] obtain vs where
      vs: "reassemble_from decoded w (i + w) = Inr vs"
        "length vs = (length decoded - (i + w) + w - 1) div w"
        "\<forall>j < length vs. vs ! j = big_endian (take w (drop (i + w + j * w) decoded))"
      by blast
    have r: "reassemble_from decoded w i = Inr (big_endian g # vs)"
      by (subst reassemble_from.simps) (simp add: c p vs(1) False "1.prems"(2))
    have l: "length (big_endian g # vs) = (length decoded - i + w - 1) div w"
      using count_step [of i "length decoded" w] False "1.prems"(2) vs(2) by simp
    have e: "(big_endian g # vs) ! j = big_endian (take w (drop (i + j * w) decoded))"
      if "j < length (big_endian g # vs)" for j
    proof (cases j)
      case 0
      then show ?thesis by (simp add: g_def)
    next
      case (Suc k)
      with that have "k < length vs" by simp
      with vs(3) have "vs ! k = big_endian (take w (drop (i + w + k * w) decoded))" by blast
      with Suc show ?thesis by (simp add: add.assoc)
    qed
    from r l e show ?thesis by blast
  qed
qed

lemma log_statistics_loop_values:
  assumes "e \<in> set (log_statistics_loop (enumerate k vs) products)"
  shows "\<exists>i < length vs. fst e = int (k + i)
    \<and> snd (snd e) = (if vs ! i = 65535 then 0 else vs ! i)"
  using assms
proof (induction vs arbitrary: k)
  case Nil
  then show ?case by simp
next
  case (Cons v vs)
  show ?case
  proof (cases "e \<in> set (log_statistics_loop (enumerate (Suc k) vs) products)")
    case True
    from Cons.IH [OF this] obtain i where
      "i < length vs" "fst e = int (Suc k + i)"
      "snd (snd e) = (if vs ! i = 65535 then 0 else vs ! i)" by blast
    then have "Suc i < length (v # vs) \<and> fst e = int (k + Suc i)
      \<and> snd (snd e) = (if (v # vs) ! Suc i = 65535 then 0 else (v # vs) ! Suc i)" by simp
    then show ?thesis by blast
  next
    case False
    with Cons.prems have "fst e = int k \<and> snd (snd e) = (if v = 65535 then 0 else v)"
      by (auto simp add: Let_def split: option.splits)
    then have "0 < length (v # vs) \<and> fst e = int (k + 0)
      \<and> snd (snd e) = (if (v # vs) ! 0 = 65535 then 0 else (v # vs) ! 0)" by simp
    then show ?thesis by blast
  qed
qed

text \<open>
  Claim C6, as the code has it. For every sequence of bytes 0..255 and a width of 2 or 3,
  the reassembly cuts the sequence into consecutive groups of \<open>w\<close> bytes, keeps a
  shorter last group when the length is no multiple of \<open>w\<close>, and reads each group as a
  big-endian unsigned integer; it changes no value. The value 65535 becomes 0 only in the
  lines that \<^verbatim>\<open>log_statistics\<close> writes for the product statistics. So the bytes
  \<^verbatim>\<open>00 01 00 02\<close> give \<open>[1, 2]\<close> and the bytes \<^verbatim>\<open>ff ff 00 05\<close> give
  \<open>[65535, 5]\<close> at width 2.
\<close>

theorem reassemble_keeps_groups:
  assumes "\<forall>d \<in> set decoded. 0 \<le> d \<and> d < 256" and "w = 2 \<or> w = 3"
  shows "(\<exists>vs. reassemble decoded w = Inr vs
      \<and> length vs = (length decoded + w - 1) div w
      \<and> (\<forall>j < length vs. vs ! j = big_endian (group_at decoded w j))
      \<and> (\<forall>e \<in> set (log_statistics vs products).
            \<exists>i < length vs. fst e = int i \<and> snd (snd e) = (if vs ! i = 65535 then 0 else vs ! i)))
    \<and> reassemble [0, 1, 0, 2] 2 = Inr [1, 2]
    \<and> reassemble [255, 255, 0, 5] 2 = Inr [65535, 5]"
proof -
  have w: "0 < w" using assms(2) by auto
  from reassemble_from_groups [OF assms(1) w, of 0] obtain vs where
    vs: "reassemble_from decoded w 0 = Inr vs"
      "length vs = (length decoded - 0 + w - 1) div w"
      "\<forall>j < length vs. vs ! j = big_endian (take w (drop (0 + j * w) decoded))"
    by blast
  have 1: "reassemble decoded w = Inr vs" using w vs(1) by (simp add: reassemble_def)
  have 2: "length vs = (length decoded + w - 1) div w" using vs(2) by simp
  have 3: "\<forall>j < length vs. vs ! j = big_endian (group_at decoded w j)"
    using vs(3) by (simp add: group_at_def)
  have 4: "\<forall>e \<in> set (log_statistics vs products).
      \<exists>i < length vs. fst e = int i \<and> snd (snd e) = (if vs ! i = 65535 then 0 else vs ! i)"
    using log_statistics_loop_values [of _ 0 vs products] by (simp add: log_statistics_def)
  have 5: "reassemble [0, 1, 0, 2] 2 = Inr [1, 2]" by code_simp
  have 6: "reassemble [255, 255, 0, 5] 2 = Inr [65535, 5]" by code_simp
  from 1 2 3 4 5 6 show ?thesis by blast
qed

theorem reassemble_keeps_groups_witness:
  "list_all (\<lambda>d. 0 \<le> d \<and> d < 256) [0, 255, 255, 1, 2 :: int]
   \<and> ((3::nat) = 2 \<or> (3::nat) = 3)
   \<and> (\<exists>vs. reassemble [0, 255, 255, 1, 2] 3 = Inr vs
      \<and> length vs = (length [0, 255, 255, 1, 2 :: int] + 3 - 1) div 3
      \<and> (\<forall>j < length vs. vs ! j = big_endian (group_at [0, 255, 255, 1, 2] 3 j))
      \<and> (\<forall>e \<in> set (log_statistics vs [\<lparr>Code = 0, Name = ''espresso''\<rparr>]).
            \<exists>i < length vs. fst e = int i \<and> snd (snd e) = (if vs ! i = 65535 then 0 else vs ! i)))"
proof -
  have h1: "\<forall>d \<in> set [0, 255, 255, 1, 2 :: int]. 0 \<le> d \<and> d < 256" by simp
  have h1': "list_all (\<lambda>d. 0 \<le> d \<and> d < 256) [0, 255, 255, 1, 2 :: int]" by simp
  have h2: "(3::nat) = 2 \<or> (3::nat) = 3" by simp
  note t = reassemble_keeps_groups [OF h1 h2, of "[\<lparr>Code = 0, Name = ''espresso''\<rparr>]", THEN conjunct1]
  show ?thesis by (rule conjI [OF h1' conjI [OF h2 t]])
qed

text \<open>
  The claim as stated fails: at width 2 the bytes \<^verbatim>\<open>ff ff 00 05\<close> reassemble to
  \<open>[65535, 5]\<close>, not to \<open>[0, 5]\<close>; the three bytes \<^verbatim>\<open>00 01 00\<close> reassemble to
  two values, the second from the incomplete group; and \<^verbatim>\<open>log_maintenance\<close>, which
  logs the values of width 2, logs 65535 as it is.
\<close>

theorem reassemble_counterexample:
  "reassemble [255, 255, 0, 5] 2 = Inr [65535, 5]
   \<and> reassemble [255, 255, 0, 5] 2 \<noteq> Inr [0, 5]
   \<and> reassemble [0, 1, 0] 2 = Inr [1, 0]
   \<and> log_maintenance [65535, 5] [''a'', ''b''] ''Cleaning count''
        = [(''Cleaning count'', ''a'', 65535), (''Cleaning count'', ''b'', 5)]"
  by code_simp

section \<open>The alert scan\<close>

lemma and7_mod: "(i::int) AND 7 = i mod 8"
  using take_bit_eq_mask [of 3 i] by (simp add: mask_eq_exp_minus_1 take_bit_eq_mod)

lemma bit_test: "(drop_bit k (x::int) AND 1 \<noteq> 0) = bit x k"
  by (simp add: bit_iff_odd_drop_bit and_one_eq odd_iff_mod_2_eq_one)

lemma scan_offsets:
  assumes "0 \<le> i"
  shows "nat (drop_bit 3 i + 1) = 1 + nat i div 8" and "nat (7 - (i AND 7)) = 7 - nat i mod 8"
proof -
  obtain m where i: "i = int m" using assms by (metis nat_0_le)
  have "(int m) div 8 = int (m div 8)" "(int m) mod 8 = int (m mod 8)"
    by (simp_all add: zdiv_int zmod_int)
  then have d: "drop_bit 3 i = int (m div 8)" and a: "i AND 7 = int (m mod 8)"
    unfolding i and7_mod by (simp_all add: drop_bit_eq_div)
  show "nat (drop_bit 3 i + 1) = 1 + nat i div 8"
    unfolding d by (simp add: i)
  have "m mod 8 < 8" by simp
  then show "nat (7 - (i AND 7)) = 7 - nat i mod 8"
    unfolding a by (simp add: i)
qed

lemma scan_step_test:
  assumes "0 \<le> i" "i < (int (length decoded) - 1) * 8"
  shows "py_index decoded (drop_bit 3 i + 1) = Inr (decoded ! (1 + nat i div 8))"
    and "(drop_bit (nat (7 - (i AND 7))) (decoded ! (1 + nat i div 8)) AND 1 \<noteq> 0)
         = alert_bit decoded i"
proof -
  have "drop_bit 3 i + 1 < int (length decoded)"
    using assms by (simp add: drop_bit_eq_div)
  then show "py_index decoded (drop_bit 3 i + 1) = Inr (decoded ! (1 + nat i div 8))"
    using scan_offsets(1) [OF assms(1)] by (simp add: py_index_def)
  show "(drop_bit (nat (7 - (i AND 7))) (decoded ! (1 + nat i div 8)) AND 1 \<noteq> 0)
         = alert_bit decoded i"
    unfolding bit_test scan_offsets(2) [OF assms(1)] alert_bit_def ..
qed

lemma alert_loop_step:
  assumes "0 \<le> i" "i < (int (length decoded) - 1) * 8"
  shows "alert_loop decoded alerts (i # is) logged =
     (if alert_bit decoded i then
        (case py_index alerts i of
           Inl e \<Rightarrow> (logged, Some e)
         | Inr name \<Rightarrow> alert_loop decoded alerts is (logged @ [(i, name)]))
      else alert_loop decoded alerts is logged)"
  by (simp only: alert_loop.simps Let_def scan_step_test [OF assms] sum.case)

lemma alert_loop_reports:
  assumes "\<forall>i \<in> set is. 0 \<le> i \<and> i < (int (length decoded) - 1) * 8"
    and "\<forall>i \<in> set is. alert_bit decoded i \<longrightarrow> i < int (length alerts)"
  shows "alert_loop decoded alerts is logged
    = (logged @ map (\<lambda>i. (i, alerts ! nat i)) (filter (alert_bit decoded) is), None)"
  using assms
proof (induction "is" arbitrary: logged)
  case Nil
  then show ?case by simp
next
  case (Cons i "is")
  then have i: "0 \<le> i" "i < (int (length decoded) - 1) * 8" by simp_all
  note st = alert_loop_step [OF i]
  have ih: "alert_loop decoded alerts is l
    = (l @ map (\<lambda>i. (i, alerts ! nat i)) (filter (alert_bit decoded) is), None)" for l
    using Cons.prems by (intro Cons.IH) simp_all
  show ?case
  proof (cases "alert_bit decoded i")
    case True
    with Cons.prems(2) have "i < int (length alerts)" by simp
    then have "py_index alerts i = Inr (alerts ! nat i)" by (simp add: py_index_def)
    with True show ?thesis by (simp add: st ih del: alert_loop.simps)
  next
    case False
    then show ?thesis by (simp add: st ih del: alert_loop.simps)
  qed
qed

lemma alert_loop_fails:
  assumes "\<forall>i \<in> set is. 0 \<le> i \<and> i < (int (length decoded) - 1) * 8"
    and "\<exists>i \<in> set is. alert_bit decoded i \<and> int (length alerts) \<le> i"
  shows "snd (alert_loop decoded alerts is logged) = Some IndexError"
  using assms
proof (induction "is" arbitrary: logged)
  case Nil
  then show ?case by simp
next
  case (Cons i "is")
  then have i: "0 \<le> i" "i < (int (length decoded) - 1) * 8" by simp_all
  note st = alert_loop_step [OF i]
  show ?case
  proof (cases "alert_bit decoded i \<and> int (length alerts) \<le> i")
    case True
    then have "py_index alerts i = Inl IndexError" by (simp add: py_index_def)
    with True show ?thesis by (simp add: st del: alert_loop.simps)
  next
    case False
    with Cons.prems(2) have ex: "\<exists>j \<in> set is. alert_bit decoded j \<and> int (length alerts) \<le> j"
      by auto
    have r: "\<forall>j \<in> set is. 0 \<le> j \<and> j < (int (length decoded) - 1) * 8"
      using Cons.prems(1) by simp
    have ih: "snd (alert_loop decoded alerts is l) = Some IndexError" for l
      using r ex by (rule Cons.IH)
    show ?thesis
    proof (cases "alert_bit decoded i")
      case True
      with False have "i < int (length alerts)" by simp
      then have "py_index alerts i = Inr (alerts ! nat i)" by (simp add: py_index_def)
      with True show ?thesis by (simp add: st ih del: alert_loop.simps)
    next
      case False
      then show ?thesis by (simp add: st ih del: alert_loop.simps)
    qed
  qed
qed

lemma upto_map_int: "[0 .. int n - 1] = map int [0..<n]"
proof (induction n)
  case 0
  then show ?case by simp
next
  case (Suc n)
  have "[0 .. int (Suc n) - 1] = [0 .. int n - 1] @ [int n]"
    using upto_rec2 [of 0 "int n"] by simp
  with Suc show ?case by simp
qed

lemma scan_range_upt:
  assumes "1 \<le> length decoded"
  shows "scan_range decoded = map int [0..<(length decoded - 1) * 8]"
proof -
  have "(int (length decoded) - 1) * 8 = int ((length decoded - 1) * 8)"
    using assms by (simp add: of_nat_diff)
  then show ?thesis unfolding scan_range_def by (simp only: upto_map_int)
qed

lemma alert_loop_prefix:
  assumes "\<forall>i \<in> set is. 0 \<le> i \<and> i < (int (length decoded) - 1) * 8"
  shows "fst (alert_loop decoded alerts is logged)
    = logged @ map (\<lambda>i. (i, alerts ! nat i))
        (takeWhile (\<lambda>i. i < int (length alerts)) (filter (alert_bit decoded) is))"
  using assms
proof (induction "is" arbitrary: logged)
  case Nil
  then show ?case by simp
next
  case (Cons i "is")
  then have i: "0 \<le> i" "i < (int (length decoded) - 1) * 8" by simp_all
  note st = alert_loop_step [OF i]
  have ih: "fst (alert_loop decoded alerts is l)
    = l @ map (\<lambda>i. (i, alerts ! nat i))
        (takeWhile (\<lambda>i. i < int (length alerts)) (filter (alert_bit decoded) is))" for l
    using Cons.prems by (intro Cons.IH) simp
  show ?case
    by (simp add: st ih py_index_def del: alert_loop.simps)
qed

text \<open>
  A set bit whose index is at or beyond the end of the table ends the scan with
  \<^verbatim>\<open>IndexError\<close>.
\<close>

lemma alert_scan_fails:
  assumes "0 \<le> i" "i < (int (length decoded) - 1) * 8"
    and "alert_bit decoded i" "int (length alerts) \<le> i"
  shows "snd (alert_scan decoded alerts) = Some IndexError"
proof -
  have r: "\<forall>j \<in> set (scan_range decoded). 0 \<le> j \<and> j < (int (length decoded) - 1) * 8"
    by (auto simp add: scan_range_def)
  have "i \<in> set (scan_range decoded)" using assms(1,2) by (simp add: scan_range_def)
  with assms(3,4) have
    "\<exists>j \<in> set (scan_range decoded). alert_bit decoded j \<and> int (length alerts) \<le> j"
    by blast
  with r show ?thesis unfolding alert_scan_def by (rule alert_loop_fails)
qed

text \<open>
  What the scan reports. It runs over the \<open>(n - 1) * 8\<close> bit indices \<open>0, 1, \<dots>\<close> in
  order and tests, at index \<open>i\<close>, the bit at byte offset \<open>1 + (i >> 3)\<close> and bit position
  \<open>7 - (i & 7)\<close>. Whatever the table, the indices it reports are set bits, in order, up
  to the first set bit that has no position in the table; when every set bit has a
  position in the table, the scan ends normally and the reported indices are exactly those
  whose bit is 1.
\<close>

lemma alert_scan_reports:
  assumes "1 \<le> length decoded"
  shows "scan_range decoded = map int [0..<(length decoded - 1) * 8]
    \<and> length (scan_range decoded) = (length decoded - 1) * 8
    \<and> fst (alert_scan decoded alerts)
        = map (\<lambda>i. (i, alerts ! nat i))
            (takeWhile (\<lambda>i. i < int (length alerts))
               (filter (alert_bit decoded) (scan_range decoded)))
    \<and> ((\<forall>i. 0 \<le> i \<and> i < (int (length decoded) - 1) * 8 \<and> alert_bit decoded i
            \<longrightarrow> i < int (length alerts))
        \<longrightarrow> alert_scan decoded alerts
              = (map (\<lambda>i. (i, alerts ! nat i))
                   (filter (alert_bit decoded) (scan_range decoded)), None))"
proof -
  have r: "\<forall>i \<in> set (scan_range decoded). 0 \<le> i \<and> i < (int (length decoded) - 1) * 8"
    by (auto simp add: scan_range_def)
  have 1: "scan_range decoded = map int [0..<(length decoded - 1) * 8]"
    using assms by (rule scan_range_upt)
  have 2: "length (scan_range decoded) = (length decoded - 1) * 8"
    unfolding 1 by simp
  have 3: "fst (alert_scan decoded alerts)
        = map (\<lambda>i. (i, alerts ! nat i))
            (takeWhile (\<lambda>i. i < int (length alerts))
               (filter (alert_bit decoded) (scan_range decoded)))"
    using alert_loop_prefix [OF r, of alerts "[]"] by (simp add: alert_scan_def)
  have 4: "alert_scan decoded alerts
              = (map (\<lambda>i. (i, alerts ! nat i))
                   (filter (alert_bit decoded) (scan_range decoded)), None)"
    if c: "\<forall>i. 0 \<le> i \<and> i < (int (length decoded) - 1) * 8 \<and> alert_bit decoded i
            \<longrightarrow> i < int (length alerts)"
  proof -
    from r c have
      "\<forall>i \<in> set (scan_range decoded). alert_bit decoded i \<longrightarrow> i < int (length alerts)"
      by blast
    from alert_loop_reports [OF r this, of "[]"] show ?thesis by (simp add: alert_scan_def)
  qed
  from 1 2 3 4 show ?thesis by blast
qed

text \<open>
  Claim C7, at the bytes \<^verbatim>\<open>00 a1 80\<close> and a table of three entries. The scan is to
  examine sixteen bit indices and to report the set bits 0, 2, 7 and 8. It reports 0 and
  2; at index 7 the log line reads \<^verbatim>\<open>alerts[7]\<close>, which raises \<^verbatim>\<open>IndexError\<close>, so
  bit 7 is not reported and the indices 8 to 15 are not examined.
\<close>

theorem alert_scan_stops_early:
  "length (scan_range [0, 161, 128]) = 16
   \<and> filter (alert_bit [0, 161, 128]) (scan_range [0, 161, 128]) = [0, 2, 7, 8]
   \<and> alert_scan [0, 161, 128] [Some ''a'', None, Some ''c'']
       = ([(0, Some ''a''), (2, Some ''c'')], Some IndexError)"
  by code_simp

text \<open>
  Claim C9, at a table of three entries, as \<^verbatim>\<open>extract_alerts\<close> builds it from the bits 0
  and 2. A set bit at index 1, inside the table and without a name, is reported with
  \<^verbatim>\<open>None\<close>; a set bit at index 3, beyond the table, makes \<^verbatim>\<open>alerts[i]\<close> raise
  \<^verbatim>\<open>IndexError\<close>, and the scan ends with that exception.
\<close>

theorem alert_scan_beyond_table:
  "extract_alerts [(0, Some ''a''), (2, Some ''c'')] = Inr [Some ''a'', None, Some ''c'']
   \<and> alert_scan [0, 64] [Some ''a'', None, Some ''c''] = ([(1, None)], None)
   \<and> alert_scan [0, 16] [Some ''a'', None, Some ''c''] = ([], Some IndexError)"
  by code_simp

end
